theory Spec2Isabelle
  imports Main "HOL-Library.AList" "HOL-Library.Word"
begin

section \<open>The expiring map of timedmap.go\<close>

text \<open>
  The embedding follows \<^verbatim>\<open>timedmap.go\<close> for one thread of control: every exported
  method is a function from the state of the \<^verbatim>\<open>timedMap\<close> struct to its new state,
  with the value the method returns.

  \<^item> A \<^verbatim>\<open>*valueWrapper\<close> is an address into an explicit store \<open>heap\<close>; the
    \<^verbatim>\<open>sync.Map\<close> is an association list from keys to addresses, whose order is the
    order in which \<^verbatim>\<open>Range\<close> visits the entries. Only \<^verbatim>\<open>*valueWrapper\<close> values are
    ever stored, so the type assertions of \<^verbatim>\<open>get\<close> and \<^verbatim>\<open>Flush\<close> cannot fail.
  \<^item> An \<^verbatim>\<open>interface{}\<close> value is an \<open>'v option\<close>, \<open>None\<close> being \<^verbatim>\<open>nil\<close>; a
    \<^verbatim>\<open>Callback\<close> is an \<open>'c option\<close>, \<open>None\<close> being the nil function. Calling a
    callback appends the callback and its argument to the log \<open>calls\<close>; a callback
    does nothing else to the map.
  \<^item> A \<^verbatim>\<open>time.Time\<close> is a number of nanoseconds counted from the zero
    \<^verbatim>\<open>time.Time\<close>, a \<^verbatim>\<open>time.Duration\<close> a number of nanoseconds; both are unbounded
    integers. Every reading of \<^verbatim>\<open>time.Now()\<close> is an argument of the function that
    makes it.
  \<^item> \<^verbatim>\<open>size\<close> is the \<^verbatim>\<open>int64\<close> of the source, a 64-bit word.
\<close>

type_synonym addr = nat
type_synonym instant = int
type_synonym duration = int

record ('v, 'c) valueWrapper =
  val :: "'v option"
  exp :: instant
  cb :: "'c option"

record ('k, 'v, 'c) timedMap =
  m :: "('k \<times> addr) list"
  heap :: "addr \<Rightarrow> ('v, 'c) valueWrapper"
  next_addr :: addr
  valuePool :: "addr list"
  size64 :: "64 word"
  cleanupRunning :: bool
  calls :: "('c \<times> 'v option) list"

text \<open>
  Modelled from the spec: \<^verbatim>\<open>ErrKeyNotFound\<close> is used by \<^verbatim>\<open>timedmap.go\<close> and declared in
  a file that is not part of the sources at hand; the specification names it as the one
  error kind, \<^verbatim>\<open>KeyNotFound\<close>.
\<close>

datatype error = ErrKeyNotFound

subsection \<open>The pool of entry objects\<close>

text \<open>
  \<^verbatim>\<open>sync.Pool\<close> may hand out any object it holds, or none of them and call
  \<^verbatim>\<open>New\<close>. The choice is the argument \<open>pick\<close>: an index into the pooled objects,
  or any larger number for a fresh \<^verbatim>\<open>&valueWrapper{}\<close>.
\<close>

definition pool_Put :: "addr \<Rightarrow> ('k, 'v, 'c) timedMap \<Rightarrow> ('k, 'v, 'c) timedMap" where
  "pool_Put vw t = t\<lparr>valuePool := vw # valuePool t\<rparr>"

definition pool_Get :: "nat \<Rightarrow> ('k, 'v, 'c) timedMap \<Rightarrow> addr \<times> ('k, 'v, 'c) timedMap" where
  "pool_Get pick t =
     (if pick < length (valuePool t)
      then (valuePool t ! pick,
            t\<lparr>valuePool := take pick (valuePool t) @ drop (Suc pick) (valuePool t)\<rparr>)
      else (next_addr t,
            t\<lparr>heap := (heap t)(next_addr t := \<lparr>val = None, exp = 0, cb = None\<rparr>),
              next_addr := Suc (next_addr t)\<rparr>))"

subsection \<open>get and remove\<close>

text \<open>
  \<^verbatim>\<open>get\<close> calls \<^verbatim>\<open>remove\<close> with the entry it found expired, and \<^verbatim>\<open>remove\<close> called
  with a nil entry calls \<^verbatim>\<open>get\<close>: the two are mutually recursive, to a depth of two.
  \<open>now\<close> is the reading of the clock in \<^verbatim>\<open>get\<close>.
\<close>

function get :: "'k \<Rightarrow> instant \<Rightarrow> ('k, 'v, 'c) timedMap \<Rightarrow> addr option \<times> ('k, 'v, 'c) timedMap"
  and remove :: "'k \<Rightarrow> addr option \<Rightarrow> instant \<Rightarrow> ('k, 'v, 'c) timedMap \<Rightarrow> ('k, 'v, 'c) timedMap"
where
  "get key now t =
     (case map_of (m t) key of
        None \<Rightarrow> (None, t)
      | Some vw \<Rightarrow>
          if now > exp (heap t vw) then (None, remove key (Some vw) now t)
          else (Some vw, t))"
| "remove key None now t =
     (case get key now t of
        (None, t') \<Rightarrow> t'
      | (Some vw, t') \<Rightarrow> remove key (Some vw) now t')"
| "remove key (Some vw) now t =
     (let t1 = (case cb (heap t vw) of
                  None \<Rightarrow> t
                | Some f \<Rightarrow> t\<lparr>calls := calls t @ [(f, val (heap t vw))]\<rparr>);
          t2 = t1\<lparr>m := AList.delete key (m t1)\<rparr>;
          t3 = pool_Put vw t2
      in t3\<lparr>size64 := size64 t3 - 1\<rparr>)"
  by pat_completeness auto
termination
  by (relation "measure (\<lambda>x. case x of
          Inl _ \<Rightarrow> 1
        | Inr (_, vwo, _, _) \<Rightarrow> (case vwo of None \<Rightarrow> 2 | Some _ \<Rightarrow> 0))") auto

declare get.simps [simp del]
declare remove.simps [simp del]

subsection \<open>The exported operations\<close>

text \<open>
  \<^verbatim>\<open>Set\<close> reads the clock twice: \<open>now\<close> in \<^verbatim>\<open>get\<close>, \<open>now'\<close> for the new expiry.
  \<open>cbs\<close> is the variadic argument.
\<close>

definition Set :: "'k \<Rightarrow> 'v option \<Rightarrow> duration \<Rightarrow> 'c option list \<Rightarrow> instant \<Rightarrow> instant \<Rightarrow> nat
    \<Rightarrow> ('k, 'v, 'c) timedMap \<Rightarrow> ('k, 'v, 'c) timedMap" where
  "Set key value expiresAfter cbs now now' pick t =
     (let (vw, t2) =
            (case get key now t of
               (None, t1) \<Rightarrow>
                 (let (p, u) = pool_Get pick t1 in (p, u\<lparr>size64 := size64 u + 1\<rparr>))
             | (Some p, t1) \<Rightarrow> (p, t1));
          w1 = (heap t2 vw)\<lparr>val := value\<rparr>;
          w2 = w1\<lparr>exp := now' + expiresAfter\<rparr>;
          w3 = (case cbs of f # _ \<Rightarrow> w2\<lparr>cb := f\<rparr> | [] \<Rightarrow> w2\<lparr>cb := None\<rparr>);
          t3 = t2\<lparr>heap := (heap t2)(vw := w3)\<rparr>
      in t3\<lparr>m := AList.update key vw (m t3)\<rparr>)"

definition GetValue :: "'k \<Rightarrow> instant \<Rightarrow> ('k, 'v, 'c) timedMap \<Rightarrow> 'v option \<times> ('k, 'v, 'c) timedMap" where
  "GetValue key now t =
     (case get key now t of
        (None, t') \<Rightarrow> (None, t')
      | (Some vw, t') \<Rightarrow> (val (heap t' vw), t'))"

definition GetExpires :: "'k \<Rightarrow> instant \<Rightarrow> ('k, 'v, 'c) timedMap
    \<Rightarrow> (error + instant) \<times> ('k, 'v, 'c) timedMap" where
  "GetExpires key now t =
     (case get key now t of
        (None, t') \<Rightarrow> (Inl ErrKeyNotFound, t')
      | (Some vw, t') \<Rightarrow> (Inr (exp (heap t' vw)), t'))"

text \<open>\<^verbatim>\<open>SetExpire\<close> and \<^verbatim>\<open>Refresh\<close> return the error, \<open>None\<close> being \<^verbatim>\<open>nil\<close>.\<close>

definition SetExpire :: "'k \<Rightarrow> duration \<Rightarrow> instant \<Rightarrow> instant \<Rightarrow> ('k, 'v, 'c) timedMap
    \<Rightarrow> error option \<times> ('k, 'v, 'c) timedMap" where
  "SetExpire key d now now' t =
     (case get key now t of
        (None, t') \<Rightarrow> (Some ErrKeyNotFound, t')
      | (Some vw, t') \<Rightarrow>
          (None, t'\<lparr>heap := (heap t')(vw := (heap t' vw)\<lparr>exp := now' + d\<rparr>)\<rparr>))"

definition Refresh :: "'k \<Rightarrow> duration \<Rightarrow> instant \<Rightarrow> ('k, 'v, 'c) timedMap
    \<Rightarrow> error option \<times> ('k, 'v, 'c) timedMap" where
  "Refresh key d now t =
     (case get key now t of
        (None, t') \<Rightarrow> (Some ErrKeyNotFound, t')
      | (Some vw, t') \<Rightarrow>
          (None, t'\<lparr>heap := (heap t')(vw := (heap t' vw)\<lparr>exp := exp (heap t' vw) + d\<rparr>)\<rparr>))"

definition Contains :: "'k \<Rightarrow> instant \<Rightarrow> ('k, 'v, 'c) timedMap \<Rightarrow> bool \<times> ('k, 'v, 'c) timedMap" where
  "Contains key now t = (case get key now t of (r, t') \<Rightarrow> (r \<noteq> None, t'))"

definition Remove :: "'k \<Rightarrow> instant \<Rightarrow> ('k, 'v, 'c) timedMap \<Rightarrow> ('k, 'v, 'c) timedMap" where
  "Remove key now t = remove key None now t"

text \<open>
  \<^verbatim>\<open>Flush\<close> hands every entry it visits to \<^verbatim>\<open>remove\<close>, which then does not read the
  clock: \<open>now\<close> is passed on and never used.
\<close>

definition Flush :: "instant \<Rightarrow> ('k, 'v, 'c) timedMap \<Rightarrow> ('k, 'v, 'c) timedMap" where
  "Flush now t = fold (\<lambda>(key, vw) u. remove key (Some vw) now u) (m t) t"

definition Size :: "('k, 'v, 'c) timedMap \<Rightarrow> int" where
  "Size t = sint (size64 t)"

text \<open>One scan of the sweeper; \<open>clk key\<close> is the clock when the scan looks at \<open>key\<close>.\<close>

definition cleanup :: "('k \<Rightarrow> instant) \<Rightarrow> ('k, 'v, 'c) timedMap \<Rightarrow> ('k, 'v, 'c) timedMap" where
  "cleanup clk t = fold (\<lambda>(key, _) u. snd (get key (clk key) u)) (m t) t"

subsection \<open>The sweeper\<close>

text \<open>
  \<^verbatim>\<open>StartCleaner\<close> sets the flag and starts \<^verbatim>\<open>cleanupCycle\<close> as a goroutine;
  \<^verbatim>\<open>StopCleaner\<close> sends on \<^verbatim>\<open>cStopCleanup\<close> and changes no field. On the struct only
  the flag is seen; the goroutine is \<open>cleanupCycle\<close> below, and a send by
  \<^verbatim>\<open>StopCleaner\<close> is the event \<open>Stop_signal\<close> it receives.
\<close>

definition StartCleaner :: "duration \<Rightarrow> ('k, 'v, 'c) timedMap \<Rightarrow> ('k, 'v, 'c) timedMap" where
  "StartCleaner interval t = t\<lparr>cleanupRunning := True\<rparr>"

definition New :: "duration \<Rightarrow> ('k, 'v, 'c) timedMap" where
  "New cleanupInterval =
     StartCleaner cleanupInterval
       \<lparr>m = [], heap = (\<lambda>_. \<lparr>val = None, exp = 0, cb = None\<rparr>), next_addr = 0,
        valuePool = [], size64 = 0, cleanupRunning = False, calls = []\<rparr>"

text \<open>
  What the \<^verbatim>\<open>select\<close> of \<^verbatim>\<open>cleanupCycle\<close> receives: a tick of the ticker, with the
  clock of the scan it starts, or the stop signal.
\<close>

datatype 'k event = Tick "'k \<Rightarrow> instant" | Stop_signal

text \<open>
  The goroutine has either returned, or it waits in \<^verbatim>\<open>select\<close> for the next event.
\<close>

datatype 'a outcome = Returned 'a | Waiting 'a

text \<open>
  The \<^verbatim>\<open>for\<close> loop, over the events received so far; the flag says whether the ticker
  is still running. On a tick the scan is started. On the stop signal the ticker is
  stopped and \<^verbatim>\<open>break\<close> leaves the \<^verbatim>\<open>select\<close> statement, which is the last statement of
  the loop body: the loop goes on to its next iteration.
\<close>

fun cleanupCycle_loop :: "'k event list \<Rightarrow> bool \<Rightarrow> ('k, 'v, 'c) timedMap
    \<Rightarrow> (bool \<times> ('k, 'v, 'c) timedMap) outcome" where
  "cleanupCycle_loop [] ticking t = Waiting (ticking, t)"
| "cleanupCycle_loop (Tick clk # es) ticking t = cleanupCycle_loop es ticking (cleanup clk t)"
| "cleanupCycle_loop (Stop_signal # es) ticking t = cleanupCycle_loop es False t"

text \<open>The deferred function runs when the loop returns.\<close>

definition cleanupCycle :: "'k event list \<Rightarrow> ('k, 'v, 'c) timedMap
    \<Rightarrow> (bool \<times> ('k, 'v, 'c) timedMap) outcome" where
  "cleanupCycle es t =
     (case cleanupCycle_loop es True t of
        Returned (ticking, t') \<Rightarrow> Returned (ticking, t'\<lparr>cleanupRunning := False\<rparr>)
      | Waiting r \<Rightarrow> Waiting r)"

subsection \<open>Vocabulary of the properties\<close>

text \<open>The entry stored under a key, read through the store.\<close>

definition entry :: "'k \<Rightarrow> ('k, 'v, 'c) timedMap \<Rightarrow> ('v, 'c) valueWrapper option" where
  "entry key t = map_option (heap t) (map_of (m t) key)"


text \<open>The call an entry's removal makes: its callback on its value, if it has one.\<close>

definition fires :: "('v, 'c) valueWrapper \<Rightarrow> ('c \<times> 'v option) list" where
  "fires w = (case cb w of None \<Rightarrow> [] | Some f \<Rightarrow> [(f, val w)])"

text \<open>The objects that sit in the pool, as the store has them.\<close>

definition pool_contents :: "('k, 'v, 'c) timedMap \<Rightarrow> ('v, 'c) valueWrapper list" where
  "pool_contents t = map (heap t) (valuePool t)"

text \<open>The entries in the map, in the order in which \<^verbatim>\<open>Range\<close> visits them.\<close>

definition entries :: "('k, 'v, 'c) timedMap \<Rightarrow> ('v, 'c) valueWrapper list" where
  "entries t = map (\<lambda>(key, vw). heap t vw) (m t)"

text \<open>
  The counter agrees with the map: no key occurs twice, and \<^verbatim>\<open>size\<close> is the number of
  entries, as a 64-bit number.
\<close>

definition counted :: "('k, 'v, 'c) timedMap \<Rightarrow> bool" where
  "counted t = (distinct (map fst (m t)) \<and> size64 t = of_nat (length (m t)))"

text \<open>Sequences of calls of the exported methods and of scans, from any state.\<close>

datatype ('k, 'v, 'c) op =
    Op_Set 'k "'v option" duration "'c option list" instant instant nat
  | Op_GetValue 'k instant
  | Op_GetExpires 'k instant
  | Op_SetExpire 'k duration instant instant
  | Op_Refresh 'k duration instant
  | Op_Contains 'k instant
  | Op_Remove 'k instant
  | Op_Flush instant
  | Op_StartCleaner duration
  | Op_cleanup "'k \<Rightarrow> instant"

fun apply_op :: "('k, 'v, 'c) op \<Rightarrow> ('k, 'v, 'c) timedMap \<Rightarrow> ('k, 'v, 'c) timedMap" where
  "apply_op (Op_Set key value expiresAfter cbs now now' pick) t =
     Set key value expiresAfter cbs now now' pick t"
| "apply_op (Op_GetValue key now) t = snd (GetValue key now t)"
| "apply_op (Op_GetExpires key now) t = snd (GetExpires key now t)"
| "apply_op (Op_SetExpire key d now now') t = snd (SetExpire key d now now' t)"
| "apply_op (Op_Refresh key d now) t = snd (Refresh key d now t)"
| "apply_op (Op_Contains key now) t = snd (Contains key now t)"
| "apply_op (Op_Remove key now) t = Remove key now t"
| "apply_op (Op_Flush now) t = Flush now t"
| "apply_op (Op_StartCleaner interval) t = StartCleaner interval t"
| "apply_op (Op_cleanup clk) t = cleanup clk t"

definition run :: "('k, 'v, 'c) op list \<Rightarrow> ('k, 'v, 'c) timedMap \<Rightarrow> ('k, 'v, 'c) timedMap" where
  "run ops t = fold apply_op ops t"

section \<open>Facts about get and remove\<close>

lemma get_absent: "map_of (m t) key = None \<Longrightarrow> get key now t = (None, t)"
  by (simp add: get.simps)

lemma get_live:
  "map_of (m t) key = Some vw \<Longrightarrow> \<not> exp (heap t vw) < now \<Longrightarrow> get key now t = (Some vw, t)"
  by (simp add: get.simps)

lemma get_expired:
  "map_of (m t) key = Some vw \<Longrightarrow> exp (heap t vw) < now \<Longrightarrow>
   get key now t = (None, remove key (Some vw) now t)"
  by (simp add: get.simps)

lemma remove_Some_eq:
  "remove key (Some vw) now t =
   t\<lparr>m := AList.delete key (m t), valuePool := vw # valuePool t, size64 := size64 t - 1,
     calls := calls t @ fires (heap t vw)\<rparr>"
  by (simp add: remove.simps pool_Put_def fires_def Let_def split: option.split)

lemma map_of_delete_same: "map_of (AList.delete key al) key = None"
  by (simp add: delete_conv')

section \<open>The counter as a signed 64-bit number\<close>

lemma sint_dec64:
  "sint (x - 1 :: 64 word) = (if sint x = - (2 ^ 63) then 2 ^ 63 - 1 else sint x - 1)"
proof (cases "sint x = - (2 ^ 63)")
  case True
  have "x = word_of_int (sint x)" by simp
  with True have "x = word_of_int (- (2 ^ 63))" by simp
  then have "x - 1 = (word_of_int (2 ^ 63 - 1) :: 64 word)" by simp
  then have "sint (x - 1) = 2 ^ 63 - 1" by simp
  with True show ?thesis by simp
next
  case False
  have lo: "- (2 ^ 63) \<le> sint x" using sint_ge [of x] by simp
  have hi: "sint x < 2 ^ 63" using sint_lt [of x] by simp
  have "sint (x - 1) = signed_take_bit 63 (sint x - 1)"
    by (simp add: sint_word_ariths)
  also have "\<dots> = sint x - 1"
    using lo hi False by (intro signed_take_bit_int_eq_self) auto
  finally show ?thesis using False by simp
qed

lemma sint_inc64:
  "sint (x + 1 :: 64 word) = (if sint x = 2 ^ 63 - 1 then - (2 ^ 63) else sint x + 1)"
proof (cases "sint x = 2 ^ 63 - 1")
  case True
  have "x = word_of_int (sint x)" by simp
  with True have "x = word_of_int (2 ^ 63 - 1)" by simp
  then have "x + 1 = (word_of_int (2 ^ 63) :: 64 word)" by simp
  then have "sint (x + 1) = - (2 ^ 63)" by simp
  with True show ?thesis by simp
next
  case False
  have lo: "- (2 ^ 63) \<le> sint x" using sint_ge [of x] by simp
  have hi: "sint x < 2 ^ 63" using sint_lt [of x] by simp
  have "sint (x + 1) = signed_take_bit 63 (sint x + 1)"
    by (simp add: sint_word_ariths)
  also have "\<dots> = sint x + 1"
    using lo hi False by (intro signed_take_bit_int_eq_self) auto
  finally show ?thesis using False by simp
qed

lemma sint_of_nat64: "n < 2 ^ 63 \<Longrightarrow> sint (of_nat n :: 64 word) = int n"
proof -
  assume n: "n < 2 ^ 63"
  have "sint (of_nat n :: 64 word) = signed_take_bit 63 (int n)"
    by (simp add: signed_of_nat)
  also have "\<dots> = int n"
  proof (rule signed_take_bit_int_eq_self)
    show "- (2 ^ 63) \<le> int n" by (rule order_trans [of _ 0]) simp_all
    from n have "int n < int (2 ^ 63)" by (simp only: of_nat_less_iff)
    then show "int n < 2 ^ 63" by simp
  qed
  finally show ?thesis .
qed

section \<open>Lookups and lazy expiry\<close>

text \<open>
  Claim C1. \<^verbatim>\<open>GetValue\<close> on a key without an entry returns nil and leaves the map as it
  is. On a key whose entry has expired it returns nil, and in the state it leaves the
  key has no entry, the entry's callback (if it has one) has been called once on the
  entry's value and nothing else has been called. On a key whose entry has not expired
  it returns the entry's value and leaves the map as it is. An entry that \<^verbatim>\<open>get\<close>
  returns is never one that the clock is after. \<^verbatim>\<open>Contains\<close> leaves the same state as
  \<^verbatim>\<open>GetValue\<close> and is true exactly in the last case.
\<close>

theorem GetValue_Contains_lazy_expiry:
  "(case entry key t of
      None \<Rightarrow> GetValue key now t = (None, t) \<and> Contains key now t = (False, t)
    | Some w \<Rightarrow>
        if exp w < now
        then fst (GetValue key now t) = None
           \<and> entry key (snd (GetValue key now t)) = None
           \<and> m (snd (GetValue key now t)) = AList.delete key (m t)
           \<and> calls (snd (GetValue key now t)) = calls t @ fires w
           \<and> Contains key now t = (False, snd (GetValue key now t))
        else GetValue key now t = (val w, t) \<and> Contains key now t = (True, t))
   \<and> (case fst (get key now t) of
        None \<Rightarrow> True
      | Some vw \<Rightarrow> now \<le> exp (heap (snd (get key now t)) vw))"
proof (cases "map_of (m t) key")
  case None
  then show ?thesis
    by (simp add: entry_def GetValue_def Contains_def get_absent)
next
  case (Some vw)
  show ?thesis
  proof (cases "exp (heap t vw) < now")
    case True
    with Some show ?thesis
      by (simp add: entry_def GetValue_def Contains_def get_expired remove_Some_eq
          map_of_delete_same)
  next
    case False
    with Some show ?thesis
      by (simp add: entry_def GetValue_def Contains_def get_live)
  qed
qed

section \<open>Explicit removal\<close>

lemma Remove_present:
  assumes "map_of (m t) key = Some vw"
  shows "Remove key now t = remove key (Some vw) now t"
proof (cases "exp (heap t vw) < now")
  case True
  with assms show ?thesis by (simp add: Remove_def remove.simps(1) get_expired)
next
  case False
  with assms show ?thesis by (simp add: Remove_def remove.simps(1) get_live)
qed

text \<open>
  Claim C5. \<^verbatim>\<open>Remove\<close> of a key without an entry changes nothing. \<^verbatim>\<open>Remove\<close> of a key
  with an entry, expired or not, deletes the entry, subtracts one from the counter
  (\<^verbatim>\<open>Size()\<close> goes down by one, in 64-bit arithmetic), and calls the entry's callback
  once on the entry's value if it has one, and calls nothing otherwise.
\<close>

theorem Remove_absent_or_present:
  "(case entry key t of
      None \<Rightarrow> Remove key now t = t
    | Some w \<Rightarrow>
        entry key (Remove key now t) = None
      \<and> m (Remove key now t) = AList.delete key (m t)
      \<and> size64 (Remove key now t) = size64 t - 1
      \<and> Size (Remove key now t) = (if Size t = - (2 ^ 63) then 2 ^ 63 - 1 else Size t - 1)
      \<and> calls (Remove key now t) = calls t @ fires w)"
proof (cases "map_of (m t) key")
  case None
  then show ?thesis
    by (simp add: entry_def Remove_def remove.simps get_absent)
next
  case (Some vw)
  then show ?thesis
    by (simp add: Remove_present entry_def remove_Some_eq map_of_delete_same Size_def
        sint_dec64)
qed

theorem Remove_witness:
  "Remove (2::nat) 5 (New 5 :: (nat, nat, nat) timedMap) = New 5
   \<and> calls (Remove (1::nat) 5 (Set 1 (Some (7::nat)) 10 [Some (3::nat)] 0 0 0 (New 5))) = [(3, Some 7)]
   \<and> Size (Remove (1::nat) 5 (Set 1 (Some (7::nat)) 10 [Some (3::nat)] 0 0 0 (New 5))) = 0
   \<and> calls (Remove (1::nat) 50 (Set 1 (Some (7::nat)) 10 [Some (3::nat)] 0 0 0 (New 5))) = [(3, Some 7)]"
  using Remove_absent_or_present [where key = "2::nat"
      and t = "New 5 :: (nat, nat, nat) timedMap" and now = 5]
    Remove_absent_or_present [where key = "1::nat"
      and t = "Set 1 (Some (7::nat)) 10 [Some (3::nat)] 0 0 0 (New 5)" and now = 5]
    Remove_absent_or_present [where key = "1::nat"
      and t = "Set 1 (Some (7::nat)) 10 [Some (3::nat)] 0 0 0 (New 5)" and now = 50]
  by (simp add: entry_def fires_def Size_def Set_def New_def StartCleaner_def get.simps
      pool_Get_def Let_def)

section \<open>Moving the expiry\<close>

text \<open>
  Claim C6. \<^verbatim>\<open>Refresh\<close> (the specification's ExtendExpiry) on a key whose entry has not
  expired returns no error and leaves under the key an entry with the same value and
  callback whose expiry is the prior expiry plus \<open>d\<close>, whatever the clock reads and
  whatever the sign of \<open>d\<close>; the map, the counter and the log of calls stay as they
  are.
\<close>

theorem Refresh_adds_to_prior_expiry:
  "entry key t = Some w \<Longrightarrow> \<not> exp w < now \<Longrightarrow>
     fst (Refresh key d now t) = None
   \<and> entry key (snd (Refresh key d now t)) = Some (w\<lparr>exp := exp w + d\<rparr>)
   \<and> m (snd (Refresh key d now t)) = m t
   \<and> calls (snd (Refresh key d now t)) = calls t
   \<and> size64 (snd (Refresh key d now t)) = size64 t"
proof -
  assume e: "entry key t = Some w" and l: "\<not> exp w < now"
  from e obtain vw where vw: "map_of (m t) key = Some vw" and w: "w = heap t vw"
    by (auto simp: entry_def)
  from vw w l have "get key now t = (Some vw, t)" by (simp add: get_live)
  with vw w show ?thesis by (simp add: Refresh_def entry_def)
qed

theorem Refresh_witness:
  "entry (1::nat) (Set 1 (Some (7::nat)) 10 [Some (3::nat)] 0 0 0 (New 5))
     = Some \<lparr>val = Some 7, exp = 10, cb = Some 3\<rparr>
   \<and> \<not> exp \<lparr>val = Some (7::nat), exp = 10, cb = Some (3::nat)\<rparr> < 9
   \<and> entry (1::nat) (snd (Refresh 1 (- 4) 9 (Set 1 (Some (7::nat)) 10 [Some (3::nat)] 0 0 0 (New 5))))
     = Some \<lparr>val = Some 7, exp = 6, cb = Some 3\<rparr>"
proof -
  have e: "entry (1::nat) (Set 1 (Some (7::nat)) 10 [Some (3::nat)] 0 0 0 (New 5))
     = Some \<lparr>val = Some 7, exp = 10, cb = Some 3\<rparr>"
    by (simp add: entry_def Set_def New_def StartCleaner_def get.simps pool_Get_def Let_def)
  have l: "\<not> exp \<lparr>val = Some (7::nat), exp = 10, cb = Some (3::nat)\<rparr> < 9" by simp
  from Refresh_adds_to_prior_expiry [OF e l, of "- 4"] e l show ?thesis by simp
qed

section \<open>A stored nil\<close>

text \<open>
  Claim C10. On a key whose entry has not expired and holds the value nil,
  \<^verbatim>\<open>GetValue\<close> returns nil and \<^verbatim>\<open>Contains\<close> returns true, both leaving the map as it
  is. After the key is removed \<^verbatim>\<open>GetValue\<close> returns the same nil, while \<^verbatim>\<open>Contains\<close>
  returns false: \<^verbatim>\<open>GetValue\<close> alone does not tell a stored nil from no entry,
  \<^verbatim>\<open>Contains\<close> does.
\<close>

theorem nil_value_GetValue_Contains:
  "entry key t = Some w \<Longrightarrow> val w = None \<Longrightarrow> \<not> exp w < now \<Longrightarrow>
     GetValue key now t = (None, t)
   \<and> Contains key now t = (True, t)
   \<and> entry key (Remove key now t) = None
   \<and> fst (GetValue key now (Remove key now t)) = fst (GetValue key now t)
   \<and> fst (Contains key now (Remove key now t)) = False"
proof -
  assume e: "entry key t = Some w" and v: "val w = None" and l: "\<not> exp w < now"
  from e obtain vw where vw: "map_of (m t) key = Some vw" and w: "w = heap t vw"
    by (auto simp: entry_def)
  from vw w l have g: "get key now t = (Some vw, t)" by (simp add: get_live)
  have a: "map_of (m (Remove key now t)) key = None"
    using vw by (simp add: Remove_present remove_Some_eq map_of_delete_same)
  then have g': "get key now (Remove key now t) = (None, Remove key now t)"
    by (rule get_absent)
  from g g' a v w show ?thesis
    by (simp add: GetValue_def Contains_def entry_def)
qed

theorem nil_value_witness:
  "entry (2::nat) (Set 2 None 10 [] 0 0 0 (New 5 :: (nat, nat, nat) timedMap))
     = Some \<lparr>val = None, exp = 10, cb = None\<rparr>
   \<and> val \<lparr>val = None :: nat option, exp = 10, cb = None :: nat option\<rparr> = None
   \<and> \<not> exp \<lparr>val = None :: nat option, exp = 10, cb = None :: nat option\<rparr> < 4
   \<and> fst (GetValue (2::nat) 4 (Set 2 None 10 [] 0 0 0 (New 5 :: (nat, nat, nat) timedMap))) = None
   \<and> fst (Contains (2::nat) 4 (Set 2 None 10 [] 0 0 0 (New 5 :: (nat, nat, nat) timedMap))) = True"
proof -
  have e: "entry (2::nat) (Set 2 None 10 [] 0 0 0 (New 5 :: (nat, nat, nat) timedMap))
     = Some \<lparr>val = None, exp = 10, cb = None\<rparr>"
    by (simp add: entry_def Set_def New_def StartCleaner_def get.simps pool_Get_def Let_def)
  have v: "val \<lparr>val = None :: nat option, exp = 10, cb = None :: nat option\<rparr> = None" by simp
  have l: "\<not> exp \<lparr>val = None :: nat option, exp = 10, cb = None :: nat option\<rparr> < 4" by simp
  from nil_value_GetValue_Contains [OF e v l] e show ?thesis by simp
qed

section \<open>Errors\<close>


section \<open>Facts about Set\<close>

lemma pool_Get_fields:
  "m (snd (pool_Get pick t)) = m t"
  "size64 (snd (pool_Get pick t)) = size64 t"
  "calls (snd (pool_Get pick t)) = calls t"
  "cleanupRunning (snd (pool_Get pick t)) = cleanupRunning t"
  by (simp_all add: pool_Get_def)

lemma all_fields_written:
  "(w :: ('v, 'c) valueWrapper)\<lparr>val := a, exp := b, cb := c\<rparr> = \<lparr>val = a, exp = b, cb = c\<rparr>"
  by (cases w) simp

lemma Set_absent:
  "map_of (m t) key = None \<Longrightarrow>
   Set key value expiresAfter cbs now now' pick t =
     (let p = fst (pool_Get pick t); u = snd (pool_Get pick t)
      in u\<lparr>size64 := size64 t + 1,
           heap := (heap u)(p := \<lparr>val = value, exp = now' + expiresAfter,
                                  cb = (case cbs of [] \<Rightarrow> None | f # _ \<Rightarrow> f)\<rparr>),
           m := AList.update key p (m t)\<rparr>)"
proof -
  assume a: "map_of (m t) key = None"
  obtain p u where pu: "pool_Get pick t = (p, u)" by (cases "pool_Get pick t")
  have "m u = m t" and "size64 u = size64 t"
    using pool_Get_fields(1,2) [of pick t] pu by simp_all
  with a pu show ?thesis
    by (simp add: Set_def get_absent Let_def all_fields_written split: list.split)
qed

lemma Set_live:
  "map_of (m t) key = Some vw \<Longrightarrow> \<not> exp (heap t vw) < now \<Longrightarrow>
   Set key value expiresAfter cbs now now' pick t =
     t\<lparr>heap := (heap t)(vw := \<lparr>val = value, exp = now' + expiresAfter,
                               cb = (case cbs of [] \<Rightarrow> None | f # _ \<Rightarrow> f)\<rparr>)\<rparr>"
  by (simp add: Set_def get_live Let_def update_triv all_fields_written split: list.split)

lemma Set_expired:
  "map_of (m t) key = Some vw \<Longrightarrow> exp (heap t vw) < now \<Longrightarrow>
   Set key value expiresAfter cbs now now' pick t =
   Set key value expiresAfter cbs now now' pick (remove key (Some vw) now t)"
proof -
  assume a: "map_of (m t) key = Some vw" "exp (heap t vw) < now"
  have "map_of (m (remove key (Some vw) now t)) key = None"
    by (simp add: remove_Some_eq map_of_delete_same)
  then have "get key now (remove key (Some vw) now t) = (None, remove key (Some vw) now t)"
    by (rule get_absent)
  with a show ?thesis by (simp add: Set_def get_expired)
qed

lemma map_of_update_same: "map_of (AList.update key p al) key = Some p"
  by (simp add: update_conv')

lemma Set_entry_absent:
  "map_of (m t) key = None \<Longrightarrow>
   entry key (Set key value expiresAfter cbs now now' pick t) =
     Some \<lparr>val = value, exp = now' + expiresAfter,
           cb = (case cbs of [] \<Rightarrow> None | f # _ \<Rightarrow> f)\<rparr>"
  by (simp add: Set_absent Let_def entry_def map_of_update_same)

lemma Set_entry:
  "entry key (Set key value expiresAfter cbs now now' pick t) =
     Some \<lparr>val = value, exp = now' + expiresAfter,
           cb = (case cbs of [] \<Rightarrow> None | f # _ \<Rightarrow> f)\<rparr>"
proof (cases "map_of (m t) key")
  case None
  then show ?thesis by (rule Set_entry_absent)
next
  case (Some vw)
  show ?thesis
  proof (cases "exp (heap t vw) < now")
    case True
    have "map_of (m (remove key (Some vw) now t)) key = None"
      by (simp add: remove_Some_eq map_of_delete_same)
    then show ?thesis
      using Some True by (simp add: Set_expired Set_entry_absent)
  next
    case False
    with Some show ?thesis by (simp add: Set_live entry_def)
  qed
qed

lemma Set_calls:
  "calls (Set key value expiresAfter cbs now now' pick t) =
     calls t @ (case entry key t of
                  None \<Rightarrow> []
                | Some w \<Rightarrow> if exp w < now then fires w else [])"
proof (cases "map_of (m t) key")
  case None
  then show ?thesis by (simp add: Set_absent Let_def entry_def pool_Get_fields)
next
  case (Some vw)
  show ?thesis
  proof (cases "exp (heap t vw) < now")
    case True
    have "map_of (m (remove key (Some vw) now t)) key = None"
      by (simp add: remove_Some_eq map_of_delete_same)
    then show ?thesis
      using Some True
      by (simp add: Set_expired Set_absent Let_def pool_Get_fields entry_def remove_Some_eq)
  next
    case False
    with Some show ?thesis by (simp add: Set_live entry_def)
  qed
qed

lemma Set_size:
  "size64 (Set key value expiresAfter cbs now now' pick t) =
     (if map_of (m t) key = None then size64 t + 1 else size64 t)"
proof (cases "map_of (m t) key")
  case None
  then show ?thesis by (simp add: Set_absent Let_def)
next
  case (Some vw)
  show ?thesis
  proof (cases "exp (heap t vw) < now")
    case True
    have "map_of (m (remove key (Some vw) now t)) key = None"
      by (simp add: remove_Some_eq map_of_delete_same)
    then show ?thesis
      using Some True
      by (simp add: Set_expired Set_absent Let_def remove_Some_eq)
  next
    case False
    with Some show ?thesis by (simp add: Set_live)
  qed
qed

lemma Set_m:
  "m (Set key value expiresAfter cbs now now' pick t) =
     (case map_of (m t) key of
        None \<Rightarrow> AList.update key (fst (pool_Get pick t)) (m t)
      | Some vw \<Rightarrow>
          if exp (heap t vw) < now
          then AList.update key (fst (pool_Get pick (remove key (Some vw) now t)))
                 (AList.delete key (m t))
          else m t)"
proof (cases "map_of (m t) key")
  case None
  then show ?thesis by (simp add: Set_absent Let_def)
next
  case (Some vw)
  show ?thesis
  proof (cases "exp (heap t vw) < now")
    case True
    have "map_of (m (remove key (Some vw) now t)) key = None"
      by (simp add: remove_Some_eq map_of_delete_same)
    then show ?thesis
      using Some True
      by (simp add: Set_expired Set_absent Let_def remove_Some_eq)
  next
    case False
    with Some show ?thesis by (simp add: Set_live)
  qed
qed

section \<open>Overwriting\<close>

text \<open>
  Claim C3, as stated, fails for an entry that has expired and is still in the map:
  \<^verbatim>\<open>Set\<close> looks the key up with \<^verbatim>\<open>get\<close>, which removes the expired entry and calls
  its callback. Here a key is set with a lifetime of 0 at instant 0 and set again at
  instant 1: the second \<^verbatim>\<open>Set\<close> calls the first entry's callback on its value.
\<close>

theorem Set_on_expired_key_calls_back:
  "entry (1::nat) (Set 1 (Some (7::nat)) 0 [Some (3::nat)] 0 0 0 (New 5))
     = Some \<lparr>val = Some 7, exp = 0, cb = Some 3\<rparr>
   \<and> calls (Set (1::nat) (Some (7::nat)) 0 [Some (3::nat)] 0 0 0 (New 5)) = []
   \<and> calls (Set 1 (Some 8) 10 [] 1 1 0
        (Set (1::nat) (Some (7::nat)) 0 [Some (3::nat)] 0 0 0 (New 5))) = [(3, Some 7)]"
  by (simp add: entry_def Set_def New_def StartCleaner_def get.simps remove.simps
      pool_Get_def pool_Put_def Let_def)

text \<open>
  Claim C3, amended. \<^verbatim>\<open>Set\<close> on a key whose entry has not expired calls nothing: all
  it does is write the new value, the new expiry and the new callback (nil when none
  is given) into the entry. \<^verbatim>\<open>Set\<close> on a key whose entry has expired calls that
  entry's callback once on the old value, if it has one, and nothing else. In both
  cases the key then holds the new value, expiry and callback, and the counter is what
  it was.
\<close>

theorem Set_on_present_key:
  "map_of (m t) key = Some vw \<Longrightarrow>
     (if exp (heap t vw) < now
      then calls (Set key v expiresAfter cbs now now' pick t) = calls t @ fires (heap t vw)
      else Set key v expiresAfter cbs now now' pick t =
             t\<lparr>heap := (heap t)(vw := \<lparr>val = v, exp = now' + expiresAfter,
                                       cb = (case cbs of [] \<Rightarrow> None | f # _ \<Rightarrow> f)\<rparr>)\<rparr>)
   \<and> entry key (Set key v expiresAfter cbs now now' pick t) =
       Some \<lparr>val = v, exp = now' + expiresAfter,
             cb = (case cbs of [] \<Rightarrow> None | f # _ \<Rightarrow> f)\<rparr>
   \<and> size64 (Set key v expiresAfter cbs now now' pick t) = size64 t"
proof -
  assume a: "map_of (m t) key = Some vw"
  then have e: "entry key t = Some (heap t vw)" by (simp add: entry_def)
  from a e show ?thesis
    by (simp add: Set_live Set_calls Set_entry Set_size)
qed

theorem Set_on_present_key_witness:
  "map_of (m (Set (1::nat) (Some (7::nat)) 10 [Some (3::nat)] 0 0 0 (New 5))) 1 = Some 0
   \<and> \<not> exp (heap (Set (1::nat) (Some (7::nat)) 10 [Some (3::nat)] 0 0 0 (New 5)) 0) < 5
   \<and> calls (Set 1 (Some 8) 20 [] 5 6 0
        (Set (1::nat) (Some (7::nat)) 10 [Some (3::nat)] 0 0 0 (New 5))) = []
   \<and> entry 1 (Set 1 (Some 8) 20 [] 5 6 0
        (Set (1::nat) (Some (7::nat)) 10 [Some (3::nat)] 0 0 0 (New 5)))
       = Some \<lparr>val = Some 8, exp = 26, cb = None\<rparr>
   \<and> size64 (Set 1 (Some 8) 20 [] 5 6 0
        (Set (1::nat) (Some (7::nat)) 10 [Some (3::nat)] 0 0 0 (New 5))) = 1"
proof -
  let ?t = "Set (1::nat) (Some (7::nat)) 10 [Some (3::nat)] 0 0 0 (New 5)"
  have a: "map_of (m ?t) 1 = Some 0"
    by (simp add: Set_def New_def StartCleaner_def get.simps pool_Get_def Let_def)
  have l: "\<not> exp (heap ?t 0) < 5"
    by (simp add: Set_def New_def StartCleaner_def get.simps pool_Get_def Let_def)
  have c: "calls ?t = []" and s: "size64 ?t = 1"
    by (simp_all add: Set_def New_def StartCleaner_def get.simps pool_Get_def Let_def)
  from Set_on_present_key [OF a, where now = 5 and v = "Some 8" and expiresAfter = 20
      and cbs = "[]" and now' = 6 and pick = 0] a l c s
  show ?thesis by (simp add: entry_def)
qed

section \<open>The pool\<close>

text \<open>
  Claim C9, as stated, fails: \<^verbatim>\<open>remove\<close> puts the entry object into the pool as it
  is. After a key is set and removed, the object in the pool still holds the value, the
  expiry and the callback of the removed entry.
\<close>

theorem pool_keeps_removed_entry:
  "pool_contents (Remove (1::nat) 5 (Set 1 (Some (7::nat)) 10 [Some (3::nat)] 0 0 0 (New 5)))
     = [\<lparr>val = Some 7, exp = 10, cb = Some 3\<rparr>]"
  by (simp add: pool_contents_def Remove_def Set_def New_def StartCleaner_def get.simps
      remove.simps pool_Get_def pool_Put_def Let_def)

text \<open>
  Claim C9, amended. An entry object goes into the pool unchanged, still holding the
  removed entry's value, expiry and callback. Whatever object \<^verbatim>\<open>Set\<close> takes from the
  pool, it writes all three fields before it stores the object in the map: the entry
  under the key after \<^verbatim>\<open>Set\<close> holds the new value, the new expiry and the new
  callback, and nothing of an earlier entry.
\<close>

theorem pooled_entry_kept_then_overwritten:
  "pool_contents (remove key (Some vw) now t) = heap t vw # pool_contents t
   \<and> (case map_of (m t) key of
        None \<Rightarrow> pool_contents (Remove key now t) = pool_contents t
      | Some p \<Rightarrow> pool_contents (Remove key now t) = heap t p # pool_contents t)
   \<and> entry key (Set key v expiresAfter cbs now now' pick t) =
       Some \<lparr>val = v, exp = now' + expiresAfter,
             cb = (case cbs of [] \<Rightarrow> None | f # _ \<Rightarrow> f)\<rparr>"
proof -
  have 1: "pool_contents (remove key (Some vw) now t) = heap t vw # pool_contents t"
    by (simp add: pool_contents_def remove_Some_eq)
  have 2: "(case map_of (m t) key of
        None \<Rightarrow> pool_contents (Remove key now t) = pool_contents t
      | Some p \<Rightarrow> pool_contents (Remove key now t) = heap t p # pool_contents t)"
  proof (cases "map_of (m t) key")
    case None
    then show ?thesis by (simp add: Remove_def remove.simps(1) get_absent)
  next
    case (Some p)
    then show ?thesis by (simp add: Remove_present pool_contents_def remove_Some_eq)
  qed
  from 1 2 show ?thesis by (simp add: Set_entry)
qed

theorem pooled_entry_witness:
  "pool_contents (Remove (1::nat) 5 (Set 1 (Some (7::nat)) 10 [Some (3::nat)] 0 0 0 (New 5)))
     = [\<lparr>val = Some 7, exp = 10, cb = Some 3\<rparr>]
   \<and> entry 2 (Set 2 None 4 [] 6 6 0
        (Remove (1::nat) 5 (Set 1 (Some (7::nat)) 10 [Some (3::nat)] 0 0 0 (New 5))))
     = Some \<lparr>val = None, exp = 10, cb = None\<rparr>
   \<and> map_of (m (Set 2 None 4 [] 6 6 0
        (Remove (1::nat) 5 (Set 1 (Some (7::nat)) 10 [Some (3::nat)] 0 0 0 (New 5))))) 2 = Some 0"
  using pooled_entry_kept_then_overwritten [where key = "1::nat" and now = 5
      and t = "Set 1 (Some (7::nat)) 10 [Some (3::nat)] 0 0 0 (New 5)"]
    pooled_entry_kept_then_overwritten [where key = "2::nat" and v = None
      and expiresAfter = 4 and cbs = "[]" and now = 6 and now' = 6 and pick = 0
      and t = "Remove (1::nat) 5 (Set 1 (Some (7::nat)) 10 [Some (3::nat)] 0 0 0 (New 5))"]
  by (simp add: pool_contents_def Remove_def Set_def New_def StartCleaner_def get.simps
      remove.simps pool_Get_def pool_Put_def Let_def)

section \<open>Flush as one update\<close>

lemma fold_delete_Nil:
  "fst ` set ys \<subseteq> fst ` set xs \<Longrightarrow> fold (\<lambda>(key, vw). AList.delete key) xs ys = []"
proof (induction xs arbitrary: ys)
  case Nil
  then show ?case by simp
next
  case (Cons x xs)
  obtain k p where x: "x = (k, p)" by (cases x)
  have "fst ` set (AList.delete k ys) \<subseteq> fst ` set xs"
    using Cons.prems x by (auto simp: AList.delete_eq)
  then have "fold (\<lambda>(key, vw). AList.delete key) xs (AList.delete k ys) = []"
    by (rule Cons.IH)
  with x show ?case by simp
qed

lemma fold_remove:
  "fold (\<lambda>(key, vw) u. remove key (Some vw) now u) xs u =
     u\<lparr>m := fold (\<lambda>(key, vw). AList.delete key) xs (m u),
       valuePool := rev (map snd xs) @ valuePool u,
       size64 := size64 u - of_nat (length xs),
       calls := calls u @ concat (map (\<lambda>(key, vw). fires (heap u vw)) xs)\<rparr>"
proof (induction xs arbitrary: u)
  case Nil
  show ?case by simp
next
  case (Cons x xs)
  obtain k p where x: "x = (k, p)" by (cases x)
  let ?f = "\<lambda>(key, vw) u. remove key (Some vw) now u"
  let ?u = "remove k (Some p) now u"
  have "fold ?f (x # xs) u = fold ?f xs ?u" by (simp add: x)
  also have "\<dots> = ?u\<lparr>m := fold (\<lambda>(key, vw). AList.delete key) xs (m ?u),
       valuePool := rev (map snd xs) @ valuePool ?u,
       size64 := size64 ?u - of_nat (length xs),
       calls := calls ?u @ concat (map (\<lambda>(key, vw). fires (heap ?u vw)) xs)\<rparr>"
    by (rule Cons.IH)
  also have "\<dots> = u\<lparr>m := fold (\<lambda>(key, vw). AList.delete key) (x # xs) (m u),
       valuePool := rev (map snd (x # xs)) @ valuePool u,
       size64 := size64 u - of_nat (length (x # xs)),
       calls := calls u @ concat (map (\<lambda>(key, vw). fires (heap u vw)) (x # xs))\<rparr>"
    by (simp add: x remove_Some_eq)
  finally show ?case .
qed

lemma Flush_eq:
  "Flush now t =
     t\<lparr>m := [], valuePool := rev (map snd (m t)) @ valuePool t,
       size64 := size64 t - of_nat (length (m t)),
       calls := calls t @ concat (map fires (entries t))\<rparr>"
proof -
  have "concat (map (\<lambda>(key, vw). fires (heap t vw)) (m t)) = concat (map fires (entries t))"
    by (simp add: entries_def case_prod_unfold comp_def)
  then show ?thesis
    by (simp add: Flush_def fold_remove fold_delete_Nil)
qed

section \<open>The counter agrees with the map\<close>

lemma length_delete_present:
  "distinct (map fst al) \<Longrightarrow> map_of al k = Some p \<Longrightarrow>
   Suc (length (AList.delete k al)) = length al"
proof (induction al)
  case Nil
  then show ?case by simp
next
  case (Cons x al)
  obtain k' p' where x: "x = (k', p')" by (cases x)
  show ?case
  proof (cases "k' = k")
    case True
    with Cons.prems x have "k \<notin> fst ` set al" by auto
    then have "AList.delete k al = al" by (rule delete_id)
    with True x show ?thesis by simp
  next
    case False
    with Cons x show ?thesis by simp
  qed
qed

lemma length_update_absent:
  "map_of al k = None \<Longrightarrow> length (AList.update k p al) = Suc (length al)"
  by (induction al) (auto split: if_splits)

lemma counted_New: "counted (New interval)"
  by (simp add: counted_def New_def StartCleaner_def)

lemma counted_remove_Some:
  assumes "counted t" and "map_of (m t) key = Some vw"
  shows "counted (remove key (Some vw') now t)"
proof -
  from assms have "Suc (length (AList.delete key (m t))) = length (m t)"
    by (simp add: counted_def length_delete_present)
  then have "of_nat (length (m t)) = (of_nat (length (AList.delete key (m t))) + 1 :: 64 word)"
    by (metis of_nat_Suc add.commute)
  with assms show ?thesis
    by (simp add: counted_def remove_Some_eq distinct_delete)
qed

lemma counted_get: "counted t \<Longrightarrow> counted (snd (get key now t))"
proof (cases "map_of (m t) key")
  case None
  assume "counted t"
  with None show ?thesis by (simp add: get_absent)
next
  case (Some vw)
  assume c: "counted t"
  show ?thesis
  proof (cases "exp (heap t vw) < now")
    case True
    with Some c show ?thesis by (simp add: get_expired counted_remove_Some)
  next
    case False
    with Some c show ?thesis by (simp add: get_live)
  qed
qed

lemma counted_Remove: "counted t \<Longrightarrow> counted (Remove key now t)"
proof (cases "map_of (m t) key")
  case None
  assume "counted t"
  with None show ?thesis by (simp add: Remove_def remove.simps(1) get_absent)
next
  case (Some vw)
  assume "counted t"
  with Some show ?thesis by (simp add: Remove_present counted_remove_Some)
qed

lemma counted_Set_absent:
  assumes "counted t" and "map_of (m t) key = None"
  shows "counted (Set key v expiresAfter cbs now now' pick t)"
  using assms
  by (simp add: Set_absent Let_def counted_def distinct_update length_update_absent)

lemma counted_Set: "counted t \<Longrightarrow> counted (Set key v expiresAfter cbs now now' pick t)"
proof (cases "map_of (m t) key")
  case None
  assume "counted t"
  with None show ?thesis by (simp add: counted_Set_absent)
next
  case (Some vw)
  assume c: "counted t"
  show ?thesis
  proof (cases "exp (heap t vw) < now")
    case True
    have "map_of (m (remove key (Some vw) now t)) key = None"
      by (simp add: remove_Some_eq map_of_delete_same)
    moreover from c Some have "counted (remove key (Some vw) now t)"
      by (rule counted_remove_Some)
    ultimately have "counted (Set key v expiresAfter cbs now now' pick (remove key (Some vw) now t))"
      by (simp add: counted_Set_absent)
    with Some True show ?thesis by (simp add: Set_expired)
  next
    case False
    with Some c show ?thesis by (simp add: Set_live counted_def)
  qed
qed

lemma counted_heap_update: "counted (t\<lparr>heap := h\<rparr>) = counted t"
  by (simp add: counted_def)

lemma counted_GetValue: "counted t \<Longrightarrow> counted (snd (GetValue key now t))"
proof -
  assume c: "counted t"
  obtain r u where g: "get key now t = (r, u)" by (cases "get key now t")
  from counted_get [OF c, of key now] g have "counted u" by simp
  with g show ?thesis by (simp add: GetValue_def split: option.split)
qed

lemma counted_GetExpires: "counted t \<Longrightarrow> counted (snd (GetExpires key now t))"
proof -
  assume c: "counted t"
  obtain r u where g: "get key now t = (r, u)" by (cases "get key now t")
  from counted_get [OF c, of key now] g have "counted u" by simp
  with g show ?thesis by (simp add: GetExpires_def split: option.split)
qed

lemma counted_SetExpire: "counted t \<Longrightarrow> counted (snd (SetExpire key d now now' t))"
proof -
  assume c: "counted t"
  obtain r u where g: "get key now t = (r, u)" by (cases "get key now t")
  from counted_get [OF c, of key now] g have "counted u" by simp
  with g show ?thesis by (simp add: SetExpire_def counted_heap_update split: option.split)
qed

lemma counted_Refresh: "counted t \<Longrightarrow> counted (snd (Refresh key d now t))"
proof -
  assume c: "counted t"
  obtain r u where g: "get key now t = (r, u)" by (cases "get key now t")
  from counted_get [OF c, of key now] g have "counted u" by simp
  with g show ?thesis by (simp add: Refresh_def counted_heap_update split: option.split)
qed

lemma counted_Contains: "counted t \<Longrightarrow> counted (snd (Contains key now t))"
proof -
  assume c: "counted t"
  obtain r u where g: "get key now t = (r, u)" by (cases "get key now t")
  from counted_get [OF c, of key now] g have "counted u" by simp
  with g show ?thesis by (simp add: Contains_def split: option.split)
qed

lemma counted_Flush: "counted t \<Longrightarrow> counted (Flush now t)"
  by (simp add: Flush_eq counted_def)

lemma counted_fold_get:
  "counted u \<Longrightarrow> counted (fold (\<lambda>(key, _) u. snd (get key (clk key) u)) xs u)"
proof (induction xs arbitrary: u)
  case Nil
  then show ?case by simp
next
  case (Cons x xs)
  obtain k p where x: "x = (k, p)" by (cases x)
  from Cons.prems have "counted (snd (get k (clk k) u))" by (rule counted_get)
  then have "counted (fold (\<lambda>(key, _) u. snd (get key (clk key) u)) xs (snd (get k (clk k) u)))"
    by (rule Cons.IH)
  with x show ?case by simp
qed

lemma counted_cleanup: "counted t \<Longrightarrow> counted (cleanup clk t)"
  by (simp add: cleanup_def counted_fold_get)

lemma counted_StartCleaner: "counted t \<Longrightarrow> counted (StartCleaner interval t)"
  by (simp add: StartCleaner_def counted_def)

lemma counted_apply_op: "counted t \<Longrightarrow> counted (apply_op x t)"
  by (cases x)
    (simp_all add: counted_Set counted_GetValue counted_GetExpires counted_SetExpire
      counted_Refresh counted_Contains counted_Remove counted_Flush counted_StartCleaner
      counted_cleanup)

lemma counted_fold_apply_op: "counted t \<Longrightarrow> counted (fold apply_op ops t)"
  by (induction ops arbitrary: t) (simp_all add: counted_apply_op)

lemma counted_run: "counted (run ops (New interval))"
  by (simp add: run_def counted_fold_apply_op counted_New)

lemma length_fires: "length (concat (map fires ws)) = length (filter (\<lambda>w. cb w \<noteq> None) ws)"
  by (induction ws) (auto simp: fires_def split: option.split)

lemma get_size:
  "size64 (snd (get key now t)) =
     (case entry key t of
        None \<Rightarrow> size64 t
      | Some w \<Rightarrow> if exp w < now then size64 t - 1 else size64 t)"
proof (cases "map_of (m t) key")
  case None
  then show ?thesis by (simp add: get_absent entry_def)
next
  case (Some vw)
  then show ?thesis
    by (cases "exp (heap t vw) < now")
      (simp_all add: get_expired get_live entry_def remove_Some_eq)
qed

lemma Remove_size:
  "size64 (Remove key now t) = (if entry key t = None then size64 t else size64 t - 1)"
proof (cases "map_of (m t) key")
  case None
  then show ?thesis by (simp add: Remove_def remove.simps(1) get_absent entry_def)
next
  case (Some vw)
  then show ?thesis by (simp add: Remove_present remove_Some_eq entry_def)
qed

text \<open>
  Claim C7. \<^verbatim>\<open>Flush\<close> leaves an empty map, in which no key has an entry. The calls it
  makes are, for each entry of the map in turn, the entry's callback on the entry's
  value when the entry has a callback, and no call otherwise: one call for each entry
  with a callback, none twice. It subtracts from the counter the number of entries
  visited, so that after any sequence of operations on a new map \<^verbatim>\<open>Size()\<close> is 0 after
  \<^verbatim>\<open>Flush\<close>.
\<close>

theorem Flush_empties_and_calls_each_once:
  "m (Flush now t) = []
   \<and> (\<forall>key. entry key (Flush now t) = None)
   \<and> calls (Flush now t) = calls t @ concat (map fires (entries t))
   \<and> length (calls (Flush now t)) =
       length (calls t) + length (filter (\<lambda>w. cb w \<noteq> None) (entries t))
   \<and> size64 (Flush now t) = size64 t - of_nat (length (m t))
   \<and> Size (Flush now (run ops (New interval))) = 0"
proof -
  have "counted (run ops (New interval))" by (rule counted_run)
  then have "size64 (Flush now (run ops (New interval))) = 0"
    by (simp add: Flush_eq counted_def)
  then have "Size (Flush now (run ops (New interval))) = 0"
    by (simp add: Size_def)
  then show ?thesis
    by (simp add: Flush_eq entry_def length_fires)
qed

theorem Flush_witness:
  "calls (Flush 3 (run [Op_Set (1::nat) (Some (7::nat)) 10 [Some (3::nat)] 0 0 0,
                        Op_Set 2 (Some 8) 10 [] 0 0 0,
                        Op_Set 4 None 0 [Some 5] 0 0 0] (New 5)))
     = [(3, Some 7), (5, None)]
   \<and> Size (Flush 3 (run [Op_Set (1::nat) (Some (7::nat)) 10 [Some (3::nat)] 0 0 0,
                        Op_Set 2 (Some 8) 10 [] 0 0 0,
                        Op_Set 4 None 0 [Some 5] 0 0 0] (New 5))) = 0"
proof -
  let ?ops = "[Op_Set (1::nat) (Some (7::nat)) 10 [Some (3::nat)] 0 0 0,
               Op_Set 2 (Some 8) 10 [] 0 0 0, Op_Set 4 None 0 [Some 5] 0 0 0]"
  have c: "calls (run ?ops (New 5)) = []"
    by (simp add: run_def Set_def New_def StartCleaner_def get.simps pool_Get_def Let_def)
  have e: "entries (run ?ops (New 5)) =
      [\<lparr>val = Some 7, exp = 10, cb = Some 3\<rparr>, \<lparr>val = Some 8, exp = 10, cb = None\<rparr>,
       \<lparr>val = None, exp = 0, cb = Some 5\<rparr>]"
    by (simp add: entries_def run_def Set_def New_def StartCleaner_def get.simps
        pool_Get_def Let_def)
  from Flush_empties_and_calls_each_once [where t = "run ?ops (New 5)" and now = 3
      and ops = ?ops and interval = 5] c e
  show ?thesis by (simp add: fires_def)
qed

text \<open>
  Claim C2. After any sequence of operations and scans on a new map, no key occurs
  twice in the map and the counter is the number of entries in the map (as a 64-bit
  number; \<^verbatim>\<open>Size()\<close> is that number while it is below \<open>2 ^ 63\<close>). From any state, \<^verbatim>\<open>Set\<close>
  adds one to the counter when the key has no entry and leaves it as it was when the
  key has one, expired or not; \<^verbatim>\<open>remove\<close> of an entry, through which every removal
  goes, subtracts one; so does a lookup that finds an expired entry, and \<^verbatim>\<open>Remove\<close> of
  a key with an entry; \<^verbatim>\<open>Flush\<close> subtracts one for every entry.
\<close>

theorem size_counts_entries:
  "distinct (map fst (m (run ops (New interval))))
   \<and> size64 (run ops (New interval)) = of_nat (length (m (run ops (New interval))))
   \<and> (length (m (run ops (New interval))) < 2 ^ 63 \<longrightarrow>
        Size (run ops (New interval)) = int (length (m (run ops (New interval)))))
   \<and> size64 (Set key v expiresAfter cbs now now' pick t) =
       (if entry key t = None then size64 t + 1 else size64 t)
   \<and> size64 (remove key (Some vw) now t) = size64 t - 1
   \<and> size64 (snd (get key now t)) =
       (case entry key t of
          None \<Rightarrow> size64 t
        | Some w \<Rightarrow> if exp w < now then size64 t - 1 else size64 t)
   \<and> size64 (Remove key now t) = (if entry key t = None then size64 t else size64 t - 1)
   \<and> size64 (Flush now t) = size64 t - of_nat (length (m t))"
proof -
  have c: "counted (run ops (New interval))" by (rule counted_run)
  then have 1: "distinct (map fst (m (run ops (New interval))))"
    and 2: "size64 (run ops (New interval)) = of_nat (length (m (run ops (New interval))))"
    by (simp_all add: counted_def)
  have 3: "length (m (run ops (New interval))) < 2 ^ 63 \<longrightarrow>
        Size (run ops (New interval)) = int (length (m (run ops (New interval))))"
    using 2 by (simp add: Size_def sint_of_nat64)
  have 4: "size64 (Set key v expiresAfter cbs now now' pick t) =
       (if entry key t = None then size64 t + 1 else size64 t)"
    by (simp add: Set_size entry_def)
  have 5: "size64 (remove key (Some vw) now t) = size64 t - 1"
    by (simp add: remove_Some_eq)
  have 6: "size64 (Flush now t) = size64 t - of_nat (length (m t))"
    by (simp add: Flush_eq)
  from 1 2 3 4 5 6 get_size [of key now t] Remove_size [of key now t]
  show ?thesis by blast
qed

theorem size_counts_entries_witness:
  "length (m (run [Op_Set (1::nat) (Some (7::nat)) 10 [Some (3::nat)] 0 0 0,
                   Op_Set 2 (Some 8) 10 [] 0 0 0,
                   Op_Set 1 (Some 9) 10 [] 1 1 0,
                   Op_GetValue 2 11] (New 5))) < 2 ^ 63
   \<and> m (run [Op_Set (1::nat) (Some (7::nat)) 10 [Some (3::nat)] 0 0 0,
             Op_Set 2 (Some 8) 10 [] 0 0 0,
             Op_Set 1 (Some 9) 10 [] 1 1 0,
             Op_GetValue 2 11] (New 5)) = [(1, 0)]
   \<and> Size (run [Op_Set (1::nat) (Some (7::nat)) 10 [Some (3::nat)] 0 0 0,
                Op_Set 2 (Some 8) 10 [] 0 0 0,
                Op_Set 1 (Some 9) 10 [] 1 1 0,
                Op_GetValue 2 11] (New 5)) = 1"
proof -
  let ?ops = "[Op_Set (1::nat) (Some (7::nat)) 10 [Some (3::nat)] 0 0 0,
               Op_Set 2 (Some 8) 10 [] 0 0 0, Op_Set 1 (Some 9) 10 [] 1 1 0,
               Op_GetValue 2 11]"
  have e: "m (run ?ops (New 5)) = [(1, 0)]"
    by (simp add: run_def Set_def GetValue_def New_def StartCleaner_def get.simps
        remove.simps pool_Get_def pool_Put_def Let_def)
  then have l: "length (m (run ?ops (New 5))) < 2 ^ 63" by simp
  note r = size_counts_entries [where ops = ?ops and interval = 5,
      THEN conjunct2, THEN conjunct2, THEN conjunct1]
  from r l have "Size (run ?ops (New 5)) = int (length (m (run ?ops (New 5))))"
    by (rule mp)
  with e l show ?thesis by simp
qed

section \<open>The sweeper's loop\<close>

lemma get_running: "cleanupRunning (snd (get key now t)) = cleanupRunning t"
proof (cases "map_of (m t) key")
  case None
  then show ?thesis by (simp add: get_absent)
next
  case (Some vw)
  then show ?thesis
    by (cases "exp (heap t vw) < now") (simp_all add: get_expired get_live remove_Some_eq)
qed

lemma fold_get_running:
  "cleanupRunning (fold (\<lambda>(key, _) u. snd (get key (clk key) u)) xs u) = cleanupRunning u"
proof (induction xs arbitrary: u)
  case Nil
  show ?case by simp
next
  case (Cons x xs)
  obtain k p where x: "x = (k, p)" by (cases x)
  show ?case by (simp add: x Cons.IH get_running)
qed

lemma cleanup_running: "cleanupRunning (cleanup clk t) = cleanupRunning t"
  by (simp add: cleanup_def fold_get_running)

lemma cleanupCycle_loop_waits:
  "\<exists>t'. cleanupCycle_loop es ticking t = Waiting (ticking \<and> Stop_signal \<notin> set es, t')
        \<and> cleanupRunning t' = cleanupRunning t"
proof (induction es arbitrary: ticking t)
  case Nil
  show ?case by simp
next
  case (Cons e es)
  show ?case
  proof (cases e)
    case (Tick clk)
    from Cons.IH [of ticking "cleanup clk t"] Tick show ?thesis
      by (simp add: cleanup_running)
  next
    case Stop_signal
    from Cons.IH [of False t] Stop_signal show ?thesis by simp
  qed
qed

lemma cleanupCycle_waits:
  "\<exists>t'. cleanupCycle es t = Waiting (Stop_signal \<notin> set es, t')
        \<and> cleanupRunning t' = cleanupRunning t"
  using cleanupCycle_loop_waits [of es True t]
  by (elim exE conjE) (simp add: cleanupCycle_def)

text \<open>
  Claim C4 asks that the loop has ended and the flag is reset once the stop signal has
  been taken. In the code the loop does not end: whatever the goroutine received before
  and after the stop signal, it is still waiting in \<^verbatim>\<open>select\<close>, with its ticker
  stopped, and \<^verbatim>\<open>cleanupRunning\<close> is still true, since the deferred function has not
  run.
\<close>

theorem cleanupCycle_does_not_return_on_stop:
  "\<exists>t'. cleanupCycle (es @ Stop_signal # es') (New interval :: ('k, 'v, 'c) timedMap)
          = Waiting (False, t')
        \<and> cleanupRunning t' = True"
proof -
  let ?t = "New interval :: ('k, 'v, 'c) timedMap"
  have "\<exists>t'. cleanupCycle (es @ Stop_signal # es') ?t
          = Waiting (Stop_signal \<notin> set (es @ Stop_signal # es'), t')
        \<and> cleanupRunning t' = cleanupRunning ?t"
    by (rule cleanupCycle_waits)
  moreover have "cleanupRunning ?t" by (simp add: New_def StartCleaner_def)
  ultimately show ?thesis by simp
qed

lemma StopCleaner_after_New:
  "cleanupCycle [Stop_signal] (New 5 :: (nat, nat, nat) timedMap) = Waiting (False, New 5)
   \<and> cleanupRunning (New 5 :: (nat, nat, nat) timedMap)"
  by (simp add: cleanupCycle_def New_def StartCleaner_def)

end
